theory Spec2Isabelle
  imports Main "HOL-Library.AList"
begin

section \<open>Strings of the parser\<close>

text \<open>
  The module is Python 2 (\<^verbatim>\<open>urllib2\<close>, \<^verbatim>\<open>e.message\<close>, the \<^verbatim>\<open>print\<close> statement), and the rows
  of a \<^verbatim>\<open>csv.reader\<close> are byte strings there: a string is a \<open>char list\<close> of bytes.
  \<^verbatim>\<open>str.strip()\<close> removes the six ASCII whitespace bytes from both ends and
  \<^verbatim>\<open>str.lower()\<close> maps \<^verbatim>\<open>A..Z\<close> to \<^verbatim>\<open>a..z\<close> (the C locale).
\<close>

datatype py_error = IndexError | KeyError | ValueError | AttributeError | IOError

definition NO_TERM :: string where
  "NO_TERM = ''<no_term>''"

definition ELIDED_TERM :: string where
  "ELIDED_TERM = ''<elided_term>''"

definition is_space :: "char \<Rightarrow> bool" where
  "is_space c = (let n = (of_char c :: nat) in n = 32 \<or> (9 \<le> n \<and> n \<le> 13))"

definition strip :: "string \<Rightarrow> string" where
  "strip s = rev (dropWhile is_space (rev (dropWhile is_space s)))"

definition lower_char :: "char \<Rightarrow> char" where
  "lower_char c = (let n = (of_char c :: nat) in if 65 \<le> n \<and> n \<le> 90 then char_of (n + 32) else c)"

definition lower :: "string \<Rightarrow> string" where
  "lower s = map lower_char s"

text \<open>\<^verbatim>\<open>s.split(sep)\<close>: every occurrence of the separator cuts, so the result has one
  element more than there are separators.\<close>

fun split :: "char \<Rightarrow> string \<Rightarrow> string list" where
  "split sep [] = [[]]"
| "split sep (c # cs) =
     (if c = sep then [] # split sep cs
      else (c # hd (split sep cs)) # tl (split sep cs))"

section \<open>Term\<close>

record Term =
  parent_term :: string
  record_term :: string
  tvalue :: string
  term_value_name :: string
  args :: "string list"
  is_arg_child :: bool

text \<open>
  \<^verbatim>\<open>Term.__init__(term, value, term_args, is_arg_child)\<close>. The tuple assignment
  \<^verbatim>\<open>self.parent_term, self.record_term = term.split('.')\<close> raises ValueError unless the
  split has exactly two parts.
\<close>

definition Term_init :: "string \<Rightarrow> string \<Rightarrow> string list \<Rightarrow> bool \<Rightarrow> py_error + Term" where
  "Term_init term_cell value_cell term_args arg_child =
     (if CHR ''.'' \<in> set term_cell then
        (case split (CHR ''.'') term_cell of
           [p, r] \<Rightarrow>
             Inr \<lparr>parent_term = (if strip p = [] then ELIDED_TERM else strip p),
                  record_term = strip r,
                  tvalue = strip value_cell,
                  term_value_name = ''@value'',
                  args = map strip term_args,
                  is_arg_child = arg_child\<rparr>
         | _ \<Rightarrow> Inl ValueError)
      else
        Inr \<lparr>parent_term = NO_TERM,
             record_term = strip term_cell,
             tvalue = strip value_cell,
             term_value_name = ''@value'',
             args = map strip term_args,
             is_arg_child = arg_child\<rparr>)"

text \<open>
  \<^verbatim>\<open>Term.child_terms(param_map)\<close> is a generator: the terms it yields before a
  constructor raises have already reached the consumer, so the model returns the
  terms yielded and the exception that ended the iteration, if any.
\<close>

fun child_terms_loop :: "string \<Rightarrow> (string \<times> string) list \<Rightarrow> Term list \<times> py_error option" where
  "child_terms_loop rt [] = ([], None)"
| "child_terms_loop rt ((term_name, v) # ps) =
     (if strip term_name \<noteq> [] \<and> strip v \<noteq> [] then
        (case Term_init (rt @ ''.'' @ term_name) v [] True of
           Inl e \<Rightarrow> ([], Some e)
         | Inr c \<Rightarrow> (c # fst (child_terms_loop rt ps), snd (child_terms_loop rt ps)))
      else child_terms_loop rt ps)"

definition child_terms :: "Term \<Rightarrow> string list \<Rightarrow> Term list \<times> py_error option" where
  "child_terms t param_map = child_terms_loop (record_term t) (zip param_map (args t))"

section \<open>TermParser\<close>

text \<open>
  The parser object: the fields that \<^verbatim>\<open>TermParser.__init__\<close> sets, except the row
  generator, which the iteration takes as the list of the rows it produces.
  \<^verbatim>\<open>errors\<close> holds the pairs \<^verbatim>\<open>(t, e.message)\<close> that the synonym branch appends.
\<close>

record TermParser =
  param_map :: "string list"
  synonyms :: "string \<rightharpoonup> string"
  value_names :: "string \<rightharpoonup> string"
  root_directory :: "string option"
  errors :: "(Term \<times> string) list"

definition TermParser_init :: "string option \<Rightarrow> TermParser" where
  "TermParser_init root_dir =
     \<lparr>param_map = [], synonyms = Map.empty, value_names = Map.empty,
      root_directory = root_dir, errors = []\<rparr>"

text \<open>
  The outside world of \<^verbatim>\<open>_include_file\<close>: \<^verbatim>\<open>urllib2.urlopen\<close> and \<^verbatim>\<open>open\<close> of the
  joined path are parameters. An opened resource is the rows that \<^verbatim>\<open>csv.reader\<close>
  reads from it and \<^verbatim>\<open>dirname(f.name)\<close>, absent when the object has no \<^verbatim>\<open>name\<close>.
\<close>

record resource =
  res_rows :: "string list list"
  res_dirname :: "string option"

record world =
  urlopen :: "string \<Rightarrow> py_error + resource"
  open_joined :: "string option \<Rightarrow> string \<Rightarrow> py_error + resource"

definition strip_slashes :: "string \<Rightarrow> string" where
  "strip_slashes s =
     rev (dropWhile (\<lambda>c. c = CHR ''/'') (rev (dropWhile (\<lambda>c. c = CHR ''/'') s)))"

definition include_file :: "world \<Rightarrow> TermParser \<Rightarrow> string \<Rightarrow> py_error + resource" where
  "include_file w p v =
     (if take 4 v = ''http'' then urlopen w v
      else open_joined w (root_directory p) (strip_slashes v))"

text \<open>
  One pass of the body of the \<^verbatim>\<open>for row in self._row_gen\<close> loop, up to the point
  where it continues, yields or raises. \<^verbatim>\<open>row[0]\<close> and \<^verbatim>\<open>row[1]\<close> raise IndexError on
  a row that is too short, and so does \<^verbatim>\<open>t.args[0]\<close> outside a \<^verbatim>\<open>try\<close>.
\<close>

datatype row_action =
    Continue TermParser
  | Yield "Term list" "py_error option"
  | Include Term
  | Raise py_error

definition substitute_synonym :: "TermParser \<Rightarrow> string \<Rightarrow> string" where
  "substitute_synonym p c0 = (case synonyms p (lower c0) of Some s \<Rightarrow> s | None \<Rightarrow> c0)"

definition dispatch_term :: "TermParser \<Rightarrow> Term \<Rightarrow> row_action" where
  "dispatch_term p t0 =
     (if lower (record_term t0) = ''termvaluename'' then
        (case args t0 of
           [] \<Rightarrow> Raise IndexError
         | a # _ \<Rightarrow> Continue (p\<lparr>value_names := (value_names p)(lower (tvalue t0) \<mapsto> a)\<rparr>))
      else
        let t = t0\<lparr>term_value_name :=
                    (case value_names p (lower (record_term t0)) of
                       Some n \<Rightarrow> n | None \<Rightarrow> ''@value'')\<rparr>
        in if lower (record_term t) = ''section'' \<or> lower (record_term t) = ''term'' then
             Continue (p\<lparr>param_map := args t\<rparr>)
           else if lower (record_term t) = ''synonym'' then
             (case args t of
                [] \<Rightarrow> Continue (p\<lparr>errors := errors p @ [(t, ''list index out of range'')]\<rparr>)
              | a # _ \<Rightarrow> Continue (p\<lparr>synonyms := (synonyms p)(lower (tvalue t) \<mapsto> lower a)\<rparr>))
           else if lower (record_term t) = ''include'' then Include t
           else Yield (t # fst (child_terms t (param_map p))) (snd (child_terms t (param_map p))))"

definition handle_row :: "TermParser \<Rightarrow> string list \<Rightarrow> row_action" where
  "handle_row p row =
     (case row of
        [] \<Rightarrow> Raise IndexError
      | c0 # cells \<Rightarrow>
          if strip c0 = [] then Continue p
          else
            (case cells of
               [] \<Rightarrow> Raise IndexError
             | c1 # term_args \<Rightarrow>
                 (case Term_init (lower (substitute_synonym p c0)) c1 term_args False of
                    Inl e \<Rightarrow> Raise e
                  | Inr t \<Rightarrow> dispatch_term p t)))"

text \<open>
  \<^verbatim>\<open>TermParser.__iter__\<close>. The result is what a consumer that pulls the generator to
  its end observes: the terms yielded in order, the exception that ended the iteration
  (if any) and the parser afterwards. An include runs a fresh parser over the rows of
  the resource; since a resource may include itself, the nesting depth is bounded by the
  first argument and \<open>None\<close> says that the bound was reached.
\<close>

record outcome =
  emitted :: "Term list"
  raised :: "py_error option"
  parser :: TermParser

definition emit_before :: "Term list \<Rightarrow> outcome option \<Rightarrow> outcome option" where
  "emit_before ts r = map_option (\<lambda>out. out\<lparr>emitted := ts @ emitted out\<rparr>) r"

fun iter_terms :: "world \<Rightarrow> nat \<Rightarrow> TermParser \<Rightarrow> string list list \<Rightarrow> outcome option" where
  "iter_terms w n p [] = Some \<lparr>emitted = [], raised = None, parser = p\<rparr>"
| "iter_terms w n p (row # rows) =
     (case handle_row p row of
        Continue p' \<Rightarrow> iter_terms w n p' rows
      | Raise e \<Rightarrow> Some \<lparr>emitted = [], raised = Some e, parser = p\<rparr>
      | Yield ts None \<Rightarrow> emit_before ts (iter_terms w n p rows)
      | Yield ts (Some e) \<Rightarrow> Some \<lparr>emitted = ts, raised = Some e, parser = p\<rparr>
      | Include t \<Rightarrow>
          (case include_file w p (tvalue t) of
             Inl e \<Rightarrow> Some \<lparr>emitted = [], raised = Some e, parser = p\<rparr>
           | Inr f \<Rightarrow>
               (case res_dirname f of
                  None \<Rightarrow> Some \<lparr>emitted = [], raised = Some AttributeError, parser = p\<rparr>
                | Some d \<Rightarrow>
                    (case n of
                       0 \<Rightarrow> None
                     | Suc m \<Rightarrow>
                         (case iter_terms w m (TermParser_init (Some d)) (res_rows f) of
                            None \<Rightarrow> None
                          | Some inner \<Rightarrow>
                              (case raised inner of
                                 Some e \<Rightarrow>
                                   Some \<lparr>emitted = emitted inner, raised = Some e, parser = p\<rparr>
                               | None \<Rightarrow>
                                   emit_before (emitted inner) (iter_terms w n p rows)))))))"

section \<open>Record and generate_records\<close>

text \<open>
  \<^verbatim>\<open>generate_records\<close> keeps references to the records it has created in
  \<^verbatim>\<open>last_term_map\<close> and appends children to them later, so the records live in a
  store: a list of \<^verbatim>\<open>Record\<close> objects, the address of an object being its index, and
  \<^verbatim>\<open>children\<close> holding addresses. The root is the object at address 0.
\<close>

record Record =
  rec_term :: string
  rec_value :: "string option"
  rec_term_value_name :: string
  rec_children :: "nat list"

definition Record_init :: "string \<Rightarrow> string option \<Rightarrow> string option \<Rightarrow> Record" where
  "Record_init term_name v tvn =
     \<lparr>rec_term = strip term_name,
      rec_value = v,
      rec_term_value_name = (case tvn of None \<Rightarrow> ''@value''
                             | Some n \<Rightarrow> if n = [] then ''@value'' else n),
      rec_children = []\<rparr>"

definition add_child :: "Record \<Rightarrow> nat \<Rightarrow> Record" where
  "add_child r c = r\<lparr>rec_children := rec_children r @ [c]\<rparr>"

record builder =
  store :: "Record list"
  last_term_map :: "string \<rightharpoonup> nat"

definition builder_init :: builder where
  "builder_init = \<lparr>store = [Record_init ''Root'' None None], last_term_map = [NO_TERM \<mapsto> 0]\<rparr>"

text \<open>The body of the loop of \<^verbatim>\<open>generate_records\<close> for one term; the lookup of the
  parent raises KeyError.\<close>

definition add_term :: "builder \<Rightarrow> Term \<Rightarrow> py_error + builder" where
  "add_term b t =
     (let r = length (store b);
          st1 = store b @ [Record_init (record_term t) (Some (tvalue t)) (Some (term_value_name t))]
      in case last_term_map b (lower (parent_term t)) of
           None \<Rightarrow> Inl KeyError
         | Some parent \<Rightarrow>
             let st2 = st1[parent := add_child (st1 ! parent) r]
             in if \<not> is_arg_child t \<and> parent_term t \<noteq> ELIDED_TERM then
                  Inr \<lparr>store = st2,
                       last_term_map = (last_term_map b)(ELIDED_TERM \<mapsto> r, lower (record_term t) \<mapsto> r)\<rparr>
                else Inr \<lparr>store = st2, last_term_map = last_term_map b\<rparr>)"

fun add_terms :: "builder \<Rightarrow> Term list \<Rightarrow> py_error + builder" where
  "add_terms b [] = Inr b"
| "add_terms b (t # ts) = (case add_term b t of Inl e \<Rightarrow> Inl e | Inr b' \<Rightarrow> add_terms b' ts)"

definition generate_records :: "Term list \<Rightarrow> py_error + Record list" where
  "generate_records term_generator = map_sum id store (add_terms builder_init term_generator)"

section \<open>convert_to_dict\<close>

text \<open>
  \<^verbatim>\<open>convert_to_dict\<close> only reads: it takes the hierarchy below a record as a finite
  tree. \<open>tree_of\<close> reads that tree out of a store, to a depth bound.
\<close>

datatype hierarchy =
  Node (h_term: string) (h_value: "string option") (h_term_value_name: string)
       (h_children: "hierarchy list")

fun tree_of :: "nat \<Rightarrow> Record list \<Rightarrow> nat \<Rightarrow> hierarchy option" where
  "tree_of 0 st a = None"
| "tree_of (Suc n) st a =
     (if a < length st then
        map_option (Node (rec_term (st ! a)) (rec_value (st ! a)) (rec_term_value_name (st ! a)))
          (those (map (tree_of n st) (rec_children (st ! a))))
      else None)"

text \<open>
  The values \<^verbatim>\<open>convert_to_dict\<close> builds. A dict is an association list with distinct
  keys in the order of their first insertion; \<^verbatim>\<open>d[k] = v\<close> is \<open>AList.update k v d\<close>.
\<close>

datatype pyval =
    PyNone
  | PyStr string
  | PyList "pyval list"
  | PyDict "(string \<times> pyval) list"

definition scalar :: "string option \<Rightarrow> pyval" where
  "scalar v = (case v of None \<Rightarrow> PyNone | Some s \<Rightarrow> PyStr s)"

text \<open>
  One pass of the \<^verbatim>\<open>try\<close> statement: \<^verbatim>\<open>d[k]\<close> raises KeyError when the key is missing,
  \<^verbatim>\<open>.append\<close> raises AttributeError on anything but a list.
\<close>

definition merge_child :: "(string \<times> pyval) list \<Rightarrow> string \<Rightarrow> pyval \<Rightarrow> (string \<times> pyval) list" where
  "merge_child d k v =
     (case map_of d k of
        None \<Rightarrow> AList.update k v d
      | Some (PyList l) \<Rightarrow> AList.update k (PyList (l @ [v])) d
      | Some old \<Rightarrow> AList.update k (PyList ([old] @ [v])) d)"

fun convert_to_dict :: "hierarchy \<Rightarrow> pyval" where
  "convert_to_dict (Node term_name v tvn cs) =
     (if cs \<noteq> [] then
        let d = fold (\<lambda>c d. merge_child d (h_term c) (convert_to_dict c)) cs []
        in PyDict (case v of
                     None \<Rightarrow> d
                   | Some s \<Rightarrow> if s \<noteq> [] then AList.update tvn (PyStr s) d else d)
      else scalar v)"

text \<open>
  The whole pipeline. \<^verbatim>\<open>generate_records\<close> pulls the terms one by one, so a KeyError
  at one of the terms yielded comes before the exception that ends the parser's
  iteration.
\<close>

definition rows_to_dict :: "world \<Rightarrow> nat \<Rightarrow> string list list \<Rightarrow> (py_error + pyval) option" where
  "rows_to_dict w n rows =
     (case iter_terms w n (TermParser_init None) rows of
        None \<Rightarrow> None
      | Some out \<Rightarrow>
          (case generate_records (emitted out) of
             Inl e \<Rightarrow> Some (Inl e)
           | Inr st \<Rightarrow>
               (case raised out of
                  Some e \<Rightarrow> Some (Inl e)
                | None \<Rightarrow> map_option (\<lambda>h. Inr (convert_to_dict h)) (tree_of (length st) st 0))))"

section \<open>Notions of the specification\<close>

text \<open>A term is eligible when \<^verbatim>\<open>generate_records\<close> enters its record in the table.\<close>

definition eligible :: "Term \<Rightarrow> bool" where
  "eligible t = (\<not> is_arg_child t \<and> parent_term t \<noteq> ELIDED_TERM)"

text \<open>The index of the last eligible term of a stream.\<close>

definition last_eligible :: "Term list \<Rightarrow> nat option" where
  "last_eligible ts =
     (case dropWhile (\<lambda>t. \<not> eligible t) (rev ts) of
        [] \<Rightarrow> None
      | _ # earlier \<Rightarrow> Some (length earlier))"

text \<open>The keys a stream of terms has entered in the table: the seed and, for each
  eligible term, the elided key and its own lowercased name.\<close>

definition registered :: "Term list \<Rightarrow> string list" where
  "registered ts =
     NO_TERM # concat (map (\<lambda>t. [ELIDED_TERM, lower (record_term t)]) (filter eligible ts))"

definition record_of :: "Term \<Rightarrow> Record" where
  "record_of t = Record_init (record_term t) (Some (tvalue t)) (Some (term_value_name t))"

definition builder_inv :: "Term list \<Rightarrow> builder \<Rightarrow> bool" where
  "builder_inv ts b \<longleftrightarrow>
     length (store b) = Suc (length ts) \<and>
     (\<forall>k a. last_term_map b k = Some a \<longrightarrow> a \<le> length ts) \<and>
     last_term_map b ELIDED_TERM = map_option Suc (last_eligible ts) \<and>
     dom (last_term_map b) = set (registered ts) \<and>
     (\<forall>i<length ts. rec_term (store b ! Suc i) = strip (record_term (ts ! i)) \<and>
                     rec_value (store b ! Suc i) = Some (tvalue (ts ! i)))"

text \<open>The children of a record of the store are records created after it.\<close>

definition store_wf :: "Record list \<Rightarrow> bool" where
  "store_wf st \<longleftrightarrow> (\<forall>a<length st. \<forall>c \<in> set (rec_children (st ! a)). a < c \<and> c < length st)"

text \<open>The merge of \<^verbatim>\<open>convert_to_dict\<close> in the words of the specification: the converted
  values of the children of one name, in order; one value stands for itself, two or
  more become a list.\<close>

definition same_named :: "hierarchy list \<Rightarrow> string \<Rightarrow> pyval list" where
  "same_named cs k = map convert_to_dict (filter (\<lambda>c. h_term c = k) cs)"

definition merged_entry :: "pyval list \<Rightarrow> pyval option" where
  "merged_entry vs = (case vs of [] \<Rightarrow> None | [v] \<Rightarrow> Some v | _ \<Rightarrow> Some (PyList vs))"

definition own_value :: "hierarchy \<Rightarrow> string option" where
  "own_value r = (case h_value r of None \<Rightarrow> None | Some s \<Rightarrow> if s = [] then None else Some s)"

definition is_list :: "pyval \<Rightarrow> bool" where
  "is_list v = (case v of PyList _ \<Rightarrow> True | _ \<Rightarrow> False)"

subsection \<open>Inputs of the examples\<close>

definition no_resources :: world where
  "no_resources = \<lparr>urlopen = (\<lambda>_. Inl IOError), open_joined = (\<lambda>_ _. Inl IOError)\<rparr>"

definition one_file :: world where
  "one_file =
     \<lparr>urlopen = (\<lambda>_. Inl IOError),
      open_joined = (\<lambda>_ path. if path = ''inc.csv''
                       then Inr \<lparr>res_rows = [[''a'', ''1'']], res_dirname = Some []\<rparr>
                       else Inl IOError)\<rparr>"

definition example_rows :: "string list list" where
  "example_rows = [[''table'', ''t1''], [''section'', [], ''a'', ''b''], [''table'', ''v1'', ''x1'', ''x2'']]"

definition mk_term :: "string \<Rightarrow> string \<Rightarrow> string \<Rightarrow> string list \<Rightarrow> bool \<Rightarrow> Term" where
  "mk_term parent name v as ac =
     \<lparr>parent_term = parent, record_term = name, tvalue = v, term_value_name = ''@value'',
      args = as, is_arg_child = ac\<rparr>"

section \<open>Strings\<close>

lemma set_dropWhile_all: "(\<forall>x \<in> set (dropWhile P xs). P x) \<longleftrightarrow> (\<forall>x \<in> set xs. P x)"
  by (induction xs) auto

lemma strip_Nil_iff: "strip s = [] \<longleftrightarrow> (\<forall>c \<in> set s. is_space c)"
  by (simp add: strip_def dropWhile_eq_Nil_conv set_dropWhile_all)

lemma lower_char_space: "is_space c \<Longrightarrow> lower_char c = c"
  by (auto simp: is_space_def lower_char_def Let_def)

lemma strip_nonblank_of_lower:
  assumes "lower c0 = x # xs" "\<not> is_space x"
  shows "strip c0 \<noteq> []"
proof -
  from assms(1) obtain y ys where c0: "c0 = y # ys" and y: "lower_char y = x"
    by (cases c0) (auto simp: lower_def)
  have "\<not> is_space y"
    using y assms(2) lower_char_space by force
  then show ?thesis
    by (simp add: strip_Nil_iff c0)
qed

lemma split_no_sep: "sep \<notin> set s \<Longrightarrow> split sep s = [s]"
  by (induction s) auto

lemma split_at_sep: "sep \<notin> set a \<Longrightarrow> split sep (a @ sep # b) = a # split sep b"
  by (induction a) auto

lemma length_split_ge2: "sep \<in> set s \<Longrightarrow> 2 \<le> length (split sep s)"
proof (induction s)
  case Nil
  then show ?case by simp
next
  case (Cons c s)
  have "split sep s \<noteq> []" for s
    by (cases s) auto
  then have "1 \<le> length (split sep s)"
    by (cases "split sep s") auto
  with Cons show ?case
    by auto
qed

section \<open>Term\<close>

text \<open>A name cell with exactly one dot is split there and both halves are trimmed; a
  cell with no dot has no parent.\<close>

lemma Term_init_one_dot:
  assumes "CHR ''.'' \<notin> set a" and "CHR ''.'' \<notin> set b"
  shows "Term_init (a @ ''.'' @ b) v cells ac =
     Inr \<lparr>parent_term = (if strip a = [] then ELIDED_TERM else strip a),
          record_term = strip b, tvalue = strip v, term_value_name = ''@value'',
          args = map strip cells, is_arg_child = ac\<rparr>"
  using assms by (simp add: Term_init_def split_at_sep split_no_sep)

lemma Term_init_no_dot:
  assumes "CHR ''.'' \<notin> set c"
  shows "Term_init c v cells ac =
     Inr \<lparr>parent_term = NO_TERM, record_term = strip c, tvalue = strip v,
          term_value_name = ''@value'', args = map strip cells, is_arg_child = ac\<rparr>"
  using assms by (simp add: Term_init_def)

text \<open>A name cell with a second dot is not split at the first one: the constructor
  raises.\<close>

lemma Term_init_more_dots:
  assumes "CHR ''.'' \<notin> set a" and "CHR ''.'' \<in> set b"
  shows "Term_init (a @ ''.'' @ b) v cells ac = Inl ValueError"
proof -
  have "2 \<le> length (split (CHR ''.'') b)"
    using assms(2) by (rule length_split_ge2)
  then obtain x y zs where "split (CHR ''.'') b = x # y # zs"
    by (cases "split (CHR ''.'') b"; cases "tl (split (CHR ''.'') b)") auto
  then show ?thesis
    using assms(1) by (simp add: Term_init_def split_at_sep)
qed

text \<open>
  C5. Claimed: a name cell that contains a dot is split on its first dot, the
  trimmed prefix being the parent term and the trimmed suffix the record term. On the
  cell \<^verbatim>\<open>a.b.c\<close> the constructor builds no term: the two-name assignment of the three
  parts of the split raises ValueError.
\<close>

theorem Term_init_two_dots_raises:
  "Term_init ''a.b.c'' ''v'' [] False = Inl ValueError"
  by (simp add: Term_init_def)

text \<open>With parameter names free of dots, \<^verbatim>\<open>child_terms\<close> yields one term for each
  positional pair of non-blank strings, in order.\<close>

lemma child_terms_loop_dot_free:
  assumes "CHR ''.'' \<notin> set rt" and "\<forall>q \<in> set ps. CHR ''.'' \<notin> set (fst q)"
  shows "child_terms_loop rt ps =
     (map (\<lambda>q. \<lparr>parent_term = (if strip rt = [] then ELIDED_TERM else strip rt),
                record_term = strip (fst q), tvalue = strip (snd q),
                term_value_name = ''@value'', args = [], is_arg_child = True\<rparr>)
        (filter (\<lambda>q. strip (fst q) \<noteq> [] \<and> strip (snd q) \<noteq> []) ps), None)"
  using assms
proof (induction ps)
  case Nil
  show ?case by simp
next
  case (Cons q ps)
  obtain name v where q: "q = (name, v)"
    by (cases q)
  have "Term_init (rt @ ''.'' @ name) v [] True =
      Inr \<lparr>parent_term = (if strip rt = [] then ELIDED_TERM else strip rt),
           record_term = strip name, tvalue = strip v, term_value_name = ''@value'',
           args = map strip [], is_arg_child = True\<rparr>"
    using Cons.prems q by (intro Term_init_one_dot) auto
  with Cons show ?case
    by (simp add: q)
qed

text \<open>
  C6. Claimed: for every parameter map, \<^verbatim>\<open>child_terms\<close> yields a term for each
  positional pair of non-blank strings. For the parameter name \<^verbatim>\<open>a.b\<close> and the argument
  \<^verbatim>\<open>x\<close> of a term \<^verbatim>\<open>t\<close>, both non-blank, it yields nothing: the constructor raises
  ValueError on the name \<^verbatim>\<open>t.a.b\<close>.
\<close>

theorem child_terms_dotted_param_raises:
  "child_terms (mk_term NO_TERM ''t'' ''v'' [''x''] False) [''a.b''] = ([], Some ValueError)"
  by (simp add: child_terms_def mk_term_def Term_init_def strip_def is_space_def)

section \<open>TermParser\<close>

lemma handle_row_term:
  assumes "strip c0 \<noteq> []" and "Term_init (lower (substitute_synonym p c0)) c1 cells False = Inr t"
  shows "handle_row p (c0 # c1 # cells) = dispatch_term p t"
  using assms by (simp add: handle_row_def)

lemma empty_row_raises:
  "iter_terms w n p ([] # rows) = Some \<lparr>emitted = [], raised = Some IndexError, parser = p\<rparr>"
  by (simp add: handle_row_def)

lemma blank_cell_row_skipped:
  "strip c0 = [] \<Longrightarrow> iter_terms w n p ((c0 # cells) # rows) = iter_terms w n p rows"
  by (simp add: handle_row_def)

text \<open>
  C2. Claimed: a row with fewer than two cells is detected and skipped or reported,
  and the iteration never raises. On the row \<^verbatim>\<open>["x"]\<close> the iteration ends with an
  IndexError, from \<^verbatim>\<open>row[1]\<close>, whatever the parser's state and the rows that follow; no
  term is yielded and nothing is added to \<^verbatim>\<open>errors\<close>.
\<close>

theorem one_cell_row_raises:
  "iter_terms w n p ([''x''] # rows) = Some \<lparr>emitted = [], raised = Some IndexError, parser = p\<rparr>"
  by (simp add: handle_row_def strip_def is_space_def)

text \<open>
  C9. A two-cell row whose first cell lowercases to \<^verbatim>\<open>termvaluename\<close> (no synonym
  being registered for that name) ends the iteration with an IndexError, from
  \<^verbatim>\<open>t.args[0]\<close>: no term is yielded, the rows after it are not read and the parser,
  its \<^verbatim>\<open>errors\<close> list included, is as it was.
\<close>

theorem termvaluename_without_target_raises:
  assumes "lower c0 = ''termvaluename''" and "synonyms p ''termvaluename'' = None"
  shows "iter_terms w n p ([c0, c1] # rows) =
           Some \<lparr>emitted = [], raised = Some IndexError, parser = p\<rparr>"
proof -
  define t where "t = \<lparr>parent_term = NO_TERM, record_term = ''termvaluename'', tvalue = strip c1,
     term_value_name = ''@value'', args = [], is_arg_child = False\<rparr>"
  have nb: "strip c0 \<noteq> []"
    by (rule strip_nonblank_of_lower [OF assms(1)]) (simp add: is_space_def)
  have sub: "lower (substitute_synonym p c0) = ''termvaluename''"
    using assms by (simp add: substitute_synonym_def)
  have "Term_init ''termvaluename'' c1 [] False = Inr t"
    by (simp add: Term_init_def t_def strip_def is_space_def)
  then have "handle_row p [c0, c1] = dispatch_term p t"
    using handle_row_term [OF nb, of p c1 "[]" t] by (simp only: sub)
  moreover have "dispatch_term p t = Raise IndexError"
    by (simp add: dispatch_term_def t_def lower_def lower_char_def)
  ultimately show ?thesis
    by simp
qed

theorem termvaluename_without_target_raises_witness:
  "lower ''TermValueName'' = ''termvaluename'' \<and>
   synonyms (TermParser_init None) ''termvaluename'' = None \<and>
   iter_terms no_resources 0 (TermParser_init None) [[''TermValueName'', ''title''], [''a'', ''b'']]
     = Some \<lparr>emitted = [], raised = Some IndexError, parser = TermParser_init None\<rparr>"
proof -
  have h1: "lower ''TermValueName'' = ''termvaluename''"
    by code_simp
  have h2: "synonyms (TermParser_init None) ''termvaluename'' = None"
    by (simp add: TermParser_init_def)
  from h1 h2 termvaluename_without_target_raises [OF h1 h2] show ?thesis
    by blast
qed

text \<open>
  C8. A row whose term has the record term \<^verbatim>\<open>synonym\<close>: with an argument, the
  synonym is registered and the iteration goes on with the next rows; without one, the
  pair of the term and the message of the IndexError is appended to \<^verbatim>\<open>errors\<close> and the
  iteration goes on with the next rows. Either way the row yields no term.
\<close>

theorem synonym_row_registers_or_records:
  assumes "strip c0 \<noteq> []"
    and "Term_init (lower (substitute_synonym p c0)) c1 cells False = Inr t"
    and "lower (record_term t) = ''synonym''"
  shows "iter_terms w n p ((c0 # c1 # cells) # rows) =
     (case args t of
        [] \<Rightarrow> iter_terms w n
                (p\<lparr>errors := errors p @
                     [(t\<lparr>term_value_name :=
                           (case value_names p ''synonym'' of Some v \<Rightarrow> v | None \<Rightarrow> ''@value'')\<rparr>,
                       ''list index out of range'')]\<rparr>) rows
      | a # _ \<Rightarrow> iter_terms w n (p\<lparr>synonyms := (synonyms p)(lower (tvalue t) \<mapsto> lower a)\<rparr>) rows)"
proof -
  have "handle_row p (c0 # c1 # cells) = dispatch_term p t"
    using assms(1,2) by (rule handle_row_term)
  then show ?thesis
    using assms(3) by (simp add: dispatch_term_def split: list.splits)
qed

theorem synonym_row_registers_or_records_witness:
  "strip ''synonym'' \<noteq> [] \<and>
   Term_init (lower (substitute_synonym (TermParser_init None) ''synonym'')) ''alias'' [] False
     = Inr (mk_term NO_TERM ''synonym'' ''alias'' [] False) \<and>
   lower (record_term (mk_term NO_TERM ''synonym'' ''alias'' [] False)) = ''synonym'' \<and>
   iter_terms no_resources 0 (TermParser_init None) [[''synonym'', ''alias''], [''a'', ''1'']] =
     Some \<lparr>emitted = [mk_term NO_TERM ''a'' ''1'' [] False], raised = None,
           parser = (TermParser_init None)
             \<lparr>errors := [(mk_term NO_TERM ''synonym'' ''alias'' [] False, ''list index out of range'')]\<rparr>\<rparr>"
proof -
  let ?p = "TermParser_init None"
  let ?t = "mk_term NO_TERM ''synonym'' ''alias'' [] False"
  have h1: "strip ''synonym'' \<noteq> []"
    by (simp add: strip_def is_space_def)
  have h2: "Term_init (lower (substitute_synonym ?p ''synonym'')) ''alias'' [] False = Inr ?t"
    by (simp add: substitute_synonym_def TermParser_init_def lower_def lower_char_def
        Term_init_def strip_def is_space_def mk_term_def)
  have h3: "lower (record_term ?t) = ''synonym''"
    by (simp add: mk_term_def lower_def lower_char_def)
  have "iter_terms no_resources 0 ?p [[''synonym'', ''alias''], [''a'', ''1'']] =
     Some \<lparr>emitted = [mk_term NO_TERM ''a'' ''1'' [] False], raised = None,
           parser = ?p\<lparr>errors := [(?t, ''list index out of range'')]\<rparr>\<rparr>"
    unfolding synonym_row_registers_or_records [OF h1 h2 h3]
    by (simp add: handle_row_def substitute_synonym_def lower_def lower_char_def
        Term_init_def strip_def is_space_def mk_term_def dispatch_term_def child_terms_def
        emit_before_def TermParser_init_def)
  with h1 h2 h3 show ?thesis
    by blast
qed

text \<open>
  C7. A row whose term has the record term \<^verbatim>\<open>include\<close>, the resource being opened
  and a fresh parser over its rows ending its iteration: the terms of the nested
  parser come first, in their order, then what the rows after the include row yield to
  the including parser, whose state the include has not changed; the include row
  yields no term of its own. When the nested iteration ends with an exception, its
  terms are yielded and the exception ends the including iteration too.
\<close>

theorem include_row_flattened:
  assumes "strip c0 \<noteq> []"
    and "Term_init (lower (substitute_synonym p c0)) c1 cells False = Inr t"
    and "lower (record_term t) = ''include''"
    and "include_file w p (tvalue t) = Inr f"
    and "res_dirname f = Some d"
    and "iter_terms w n (TermParser_init (Some d)) (res_rows f) = Some inner"
  shows "iter_terms w (Suc n) p ((c0 # c1 # cells) # rows) =
     (if raised inner = None
      then map_option (\<lambda>out. out\<lparr>emitted := emitted inner @ emitted out\<rparr>)
             (iter_terms w (Suc n) p rows)
      else Some \<lparr>emitted = emitted inner, raised = raised inner, parser = p\<rparr>)"
proof -
  have "handle_row p (c0 # c1 # cells) = dispatch_term p t"
    using assms(1,2) by (rule handle_row_term)
  then have "handle_row p (c0 # c1 # cells) =
      Include (t\<lparr>term_value_name :=
                   (case value_names p ''include'' of Some v \<Rightarrow> v | None \<Rightarrow> ''@value'')\<rparr>)"
    using assms(3) by (simp add: dispatch_term_def)
  then show ?thesis
    using assms(4,5,6) by (auto simp: emit_before_def split: option.splits)
qed

theorem include_row_flattened_witness:
  "strip ''include'' \<noteq> [] \<and>
   Term_init (lower (substitute_synonym (TermParser_init None) ''include'')) ''inc.csv'' [] False
     = Inr (mk_term NO_TERM ''include'' ''inc.csv'' [] False) \<and>
   lower (record_term (mk_term NO_TERM ''include'' ''inc.csv'' [] False)) = ''include'' \<and>
   include_file one_file (TermParser_init None) (tvalue (mk_term NO_TERM ''include'' ''inc.csv'' [] False))
     = Inr \<lparr>res_rows = [[''a'', ''1'']], res_dirname = Some []\<rparr> \<and>
   iter_terms one_file 0 (TermParser_init (Some [])) [[''a'', ''1'']] =
     Some \<lparr>emitted = [mk_term NO_TERM ''a'' ''1'' [] False], raised = None,
           parser = TermParser_init (Some [])\<rparr> \<and>
   iter_terms one_file (Suc 0) (TermParser_init None) [[''include'', ''inc.csv''], [''b'', ''2'']] =
     Some \<lparr>emitted = [mk_term NO_TERM ''a'' ''1'' [] False, mk_term NO_TERM ''b'' ''2'' [] False],
           raised = None, parser = TermParser_init None\<rparr>"
proof -
  let ?p = "TermParser_init None"
  let ?t = "mk_term NO_TERM ''include'' ''inc.csv'' [] False"
  let ?f = "\<lparr>res_rows = [[''a'', ''1'']], res_dirname = Some []\<rparr>"
  let ?inner = "\<lparr>emitted = [mk_term NO_TERM ''a'' ''1'' [] False], raised = None,
           parser = TermParser_init (Some [])\<rparr>"
  have h1: "strip ''include'' \<noteq> []"
    by (simp add: strip_def is_space_def)
  have h2: "Term_init (lower (substitute_synonym ?p ''include'')) ''inc.csv'' [] False = Inr ?t"
    by (simp add: substitute_synonym_def TermParser_init_def lower_def lower_char_def
        Term_init_def strip_def is_space_def mk_term_def)
  have h3: "lower (record_term ?t) = ''include''"
    by (simp add: mk_term_def lower_def lower_char_def)
  have h4: "include_file one_file ?p (tvalue ?t) = Inr ?f"
    by (simp add: include_file_def one_file_def mk_term_def strip_slashes_def)
  have h5: "res_dirname ?f = Some []"
    by simp
  have h6: "iter_terms one_file 0 (TermParser_init (Some [])) (res_rows ?f) = Some ?inner"
    by (simp add: handle_row_def substitute_synonym_def lower_def lower_char_def
        Term_init_def strip_def is_space_def mk_term_def dispatch_term_def child_terms_def
        emit_before_def TermParser_init_def)
  have rest: "iter_terms one_file (Suc 0) ?p [[''b'', ''2'']] =
      Some \<lparr>emitted = [mk_term NO_TERM ''b'' ''2'' [] False], raised = None, parser = ?p\<rparr>"
    by (simp add: handle_row_def substitute_synonym_def lower_def lower_char_def
        Term_init_def strip_def is_space_def mk_term_def dispatch_term_def child_terms_def
        emit_before_def TermParser_init_def)
  have "iter_terms one_file (Suc 0) ?p [[''include'', ''inc.csv''], [''b'', ''2'']] =
     Some \<lparr>emitted = [mk_term NO_TERM ''a'' ''1'' [] False, mk_term NO_TERM ''b'' ''2'' [] False],
           raised = None, parser = ?p\<rparr>"
    unfolding include_row_flattened [OF h1 h2 h3 h4 h5 h6] rest
    by simp
  moreover from h6 have "iter_terms one_file 0 (TermParser_init (Some [])) [[''a'', ''1'']] = Some ?inner"
    by simp
  ultimately show ?thesis
    using h1 h2 h3 h4 by blast
qed

section \<open>convert_to_dict\<close>

lemma convert_to_dict_not_list: "\<not> is_list (convert_to_dict r)"
  by (cases r) (simp add: is_list_def scalar_def Let_def split: option.splits)

lemma merged_entry_snoc:
  "\<not> is_list v \<Longrightarrow> \<forall>x \<in> set vs. \<not> is_list x \<Longrightarrow>
   merged_entry (vs @ [v]) =
     (case merged_entry vs of
        None \<Rightarrow> Some v
      | Some (PyList l) \<Rightarrow> Some (PyList (l @ [v]))
      | Some old \<Rightarrow> Some (PyList ([old] @ [v])))"
  by (cases vs; cases "tl vs") (auto simp: merged_entry_def is_list_def split: pyval.splits list.splits)

lemma map_of_merge_child:
  "map_of (merge_child d k v) k' =
     (if k' = k then
        (case map_of d k of
           None \<Rightarrow> Some v
         | Some (PyList l) \<Rightarrow> Some (PyList (l @ [v]))
         | Some old \<Rightarrow> Some (PyList ([old] @ [v])))
      else map_of d k')"
  by (simp add: merge_child_def AList.update_conv' split: option.splits pyval.splits)

lemma distinct_merge_child:
  "distinct (map fst d) \<Longrightarrow> distinct (map fst (merge_child d k v))"
  by (simp add: merge_child_def AList.distinct_update split: option.splits pyval.splits)

lemma fold_merge_child:
  "distinct (map fst (fold (\<lambda>c d. merge_child d (h_term c) (convert_to_dict c)) cs [])) \<and>
   map_of (fold (\<lambda>c d. merge_child d (h_term c) (convert_to_dict c)) cs []) k
     = merged_entry (same_named cs k)"
proof (induction cs rule: rev_induct)
  case Nil
  show ?case by (simp add: merged_entry_def same_named_def)
next
  case (snoc c cs)
  have nl: "\<forall>x \<in> set (same_named cs k). \<not> is_list x"
    by (auto simp: same_named_def convert_to_dict_not_list)
  show ?case
  proof (cases "h_term c = k")
    case True
    then have "same_named (cs @ [c]) k = same_named cs k @ [convert_to_dict c]"
      by (simp add: same_named_def)
    then show ?thesis
      using snoc True merged_entry_snoc [OF convert_to_dict_not_list nl, of c]
      by (simp add: map_of_merge_child distinct_merge_child)
  next
    case False
    then have "same_named (cs @ [c]) k = same_named cs k"
      by (simp add: same_named_def)
    then show ?thesis
      using snoc False by (simp add: map_of_merge_child distinct_merge_child)
  qed
qed

text \<open>
  C3. A record without children converts to its scalar value. A record with
  children converts to a dict in which a key holds the record's own value when that
  value is non-empty and the key is the record's \<^verbatim>\<open>term_value_name\<close>, and otherwise what
  the children of that name merge to: nothing when there is none, the converted value
  of the only one, the list of the converted values, in the children's order, of two
  or more.
\<close>

theorem convert_to_dict_merge:
  "(h_children r = [] \<longrightarrow> convert_to_dict r = scalar (h_value r)) \<and>
   (h_children r \<noteq> [] \<longrightarrow>
      (\<exists>d. convert_to_dict r = PyDict d \<and> distinct (map fst d) \<and>
           (\<forall>k. map_of d k =
              (case own_value r of
                 None \<Rightarrow> merged_entry (same_named (h_children r) k)
               | Some s \<Rightarrow> if k = h_term_value_name r then Some (PyStr s)
                           else merged_entry (same_named (h_children r) k)))))"
proof (cases r)
  case (Node term_name v tvn cs)
  let ?d = "fold (\<lambda>c d. merge_child d (h_term c) (convert_to_dict c)) cs []"
  have d: "distinct (map fst ?d)" and m: "\<And>k. map_of ?d k = merged_entry (same_named cs k)"
    using fold_merge_child [of cs] by simp_all
  show ?thesis
  proof (cases "own_value r")
    case None
    then have "cs \<noteq> [] \<Longrightarrow> convert_to_dict r = PyDict ?d"
      using Node by (auto simp: own_value_def Let_def split: option.splits if_splits)
    then show ?thesis
      using Node None d m by simp
  next
    case (Some s)
    then have "cs \<noteq> [] \<Longrightarrow> convert_to_dict r = PyDict (AList.update tvn (PyStr s) ?d)"
      using Node by (auto simp: own_value_def Let_def split: option.splits if_splits)
    then show ?thesis
      using Node Some d m by (simp add: AList.update_conv' AList.distinct_update)
  qed
qed

theorem convert_to_dict_merge_witness:
  "h_children (Node ''n'' (Some ''v'') ''@value''
       [Node ''k'' (Some ''1'') ''@value'' [], Node ''j'' (Some ''2'') ''@value'' [],
        Node ''k'' (Some ''3'') ''@value'' [], Node ''k'' (Some ''4'') ''@value'' []]) \<noteq> [] \<and>
   (\<exists>d. convert_to_dict (Node ''n'' (Some ''v'') ''@value''
       [Node ''k'' (Some ''1'') ''@value'' [], Node ''j'' (Some ''2'') ''@value'' [],
        Node ''k'' (Some ''3'') ''@value'' [], Node ''k'' (Some ''4'') ''@value'' []]) = PyDict d \<and>
      map_of d ''k'' = Some (PyList [PyStr ''1'', PyStr ''3'', PyStr ''4'']) \<and>
      map_of d ''j'' = Some (PyStr ''2'') \<and>
      map_of d ''@value'' = Some (PyStr ''v'') \<and>
      map_of d ''i'' = None)"
proof -
  let ?r = "Node ''n'' (Some ''v'') ''@value''
       [Node ''k'' (Some ''1'') ''@value'' [], Node ''j'' (Some ''2'') ''@value'' [],
        Node ''k'' (Some ''3'') ''@value'' [], Node ''k'' (Some ''4'') ''@value'' []]"
  have h: "h_children ?r \<noteq> []"
    by simp
  with convert_to_dict_merge [of ?r] obtain d where d: "convert_to_dict ?r = PyDict d"
    and m: "\<And>k. map_of d k =
              (case own_value ?r of
                 None \<Rightarrow> merged_entry (same_named (h_children ?r) k)
               | Some s \<Rightarrow> if k = h_term_value_name ?r then Some (PyStr s)
                           else merged_entry (same_named (h_children ?r) k))"
    by blast
  have "map_of d ''k'' = Some (PyList [PyStr ''1'', PyStr ''3'', PyStr ''4''])"
    and "map_of d ''j'' = Some (PyStr ''2'')"
    and "map_of d ''@value'' = Some (PyStr ''v'')"
    and "map_of d ''i'' = None"
    unfolding m by (simp_all add: own_value_def same_named_def merged_entry_def scalar_def)
  with h d show ?thesis
    by blast
qed

section \<open>generate_records\<close>

lemma add_terms_snoc:
  "add_terms b (ts @ [t]) = (case add_terms b ts of Inl e \<Rightarrow> Inl e | Inr b' \<Rightarrow> add_term b' t)"
  by (induction ts arbitrary: b) (auto split: sum.splits)

lemma add_term_cases:
  "add_term b t =
     (case last_term_map b (lower (parent_term t)) of
        None \<Rightarrow> Inl KeyError
      | Some parent \<Rightarrow>
          Inr \<lparr>store = (store b @ [record_of t])[parent := add_child ((store b @ [record_of t]) ! parent) (length (store b))],
               last_term_map =
                 (if eligible t
                  then (last_term_map b)(ELIDED_TERM \<mapsto> length (store b), lower (record_term t) \<mapsto> length (store b))
                  else last_term_map b)\<rparr>)"
  by (simp add: add_term_def record_of_def eligible_def Let_def split: option.splits)

lemma add_terms_error: "add_terms b ts = Inl e \<Longrightarrow> e = KeyError"
  by (induction ts arbitrary: b) (auto simp: add_term_cases split: sum.splits option.splits)

lemma last_eligible_snoc:
  "last_eligible (ts @ [t]) = (if eligible t then Some (length ts) else last_eligible ts)"
  by (simp add: last_eligible_def)

lemma registered_snoc:
  "set (registered (ts @ [t])) =
     (if eligible t then insert ELIDED_TERM (insert (lower (record_term t)) (set (registered ts)))
      else set (registered ts))"
  by (auto simp: registered_def)

lemma last_eligible_props:
  "last_eligible ts = Some j \<Longrightarrow>
     j < length ts \<and> eligible (ts ! j) \<and> (\<forall>i<length ts. j < i \<longrightarrow> \<not> eligible (ts ! i))"
proof (induction ts arbitrary: j rule: rev_induct)
  case Nil
  then show ?case by (simp add: last_eligible_def)
next
  case (snoc t ts)
  show ?case
  proof (cases "eligible t")
    case True
    with snoc.prems have "j = length ts" by (simp add: last_eligible_snoc)
    with True show ?thesis by simp
  next
    case False
    with snoc.prems have "last_eligible ts = Some j" by (simp add: last_eligible_snoc)
    from snoc.IH [OF this] False show ?thesis
      by (auto simp: nth_append less_Suc_eq)
  qed
qed

lemma lower_ELIDED_TERM: "lower ELIDED_TERM = ELIDED_TERM"
  by (simp add: ELIDED_TERM_def lower_def lower_char_def)

text \<open>What holds of the builder after a stream of terms: the record of the term at
  index \<open>i\<close> is at address \<open>i + 1\<close>, the table points at records of the store, its elided
  key at the record of the last eligible term, and its keys are the registered ones.\<close>

lemma builder_inv_init: "builder_inv [] builder_init"
  by (simp add: builder_inv_def builder_init_def last_eligible_def registered_def NO_TERM_def ELIDED_TERM_def)

lemma builder_inv_step:
  assumes inv: "builder_inv ts b" and step: "add_term b t = Inr b'"
  shows "builder_inv (ts @ [t]) b'"
proof -
  from step obtain parent where look: "last_term_map b (lower (parent_term t)) = Some parent"
    and st: "store b' = (store b @ [record_of t])[parent := add_child ((store b @ [record_of t]) ! parent) (length (store b))]"
    and tb: "last_term_map b' =
                 (if eligible t
                  then (last_term_map b)(ELIDED_TERM \<mapsto> length (store b), lower (record_term t) \<mapsto> length (store b))
                  else last_term_map b)"
    by (auto simp: add_term_cases split: option.splits)
  from inv have len: "length (store b) = Suc (length ts)"
    and bound: "\<And>k a. last_term_map b k = Some a \<Longrightarrow> a \<le> length ts"
    and el: "last_term_map b ELIDED_TERM = map_option Suc (last_eligible ts)"
    and dm: "dom (last_term_map b) = set (registered ts)"
    and recs: "\<And>i. i < length ts \<Longrightarrow> rec_term (store b ! Suc i) = strip (record_term (ts ! i)) \<and>
                     rec_value (store b ! Suc i) = Some (tvalue (ts ! i))"
    by (simp_all add: builder_inv_def)
  have p: "parent \<le> length ts" using bound look by simp
  have 1: "length (store b') = Suc (length (ts @ [t]))"
    by (simp add: st len)
  have 2: "\<forall>k a. last_term_map b' k = Some a \<longrightarrow> a \<le> length (ts @ [t])"
    using bound by (auto simp: tb len le_Suc_eq split: if_splits)
  have 3: "last_term_map b' ELIDED_TERM = map_option Suc (last_eligible (ts @ [t]))"
    by (simp add: tb el last_eligible_snoc len)
  have 4: "dom (last_term_map b') = set (registered (ts @ [t]))"
    by (auto simp: tb dm registered_snoc)
  have 5: "\<forall>i<length (ts @ [t]). rec_term (store b' ! Suc i) = strip (record_term ((ts @ [t]) ! i)) \<and>
                     rec_value (store b' ! Suc i) = Some (tvalue ((ts @ [t]) ! i))"
  proof (intro allI impI)
    fix i assume "i < length (ts @ [t])"
    then consider "i < length ts" | "i = length ts" by fastforce
    then show "rec_term (store b' ! Suc i) = strip (record_term ((ts @ [t]) ! i)) \<and>
                     rec_value (store b' ! Suc i) = Some (tvalue ((ts @ [t]) ! i))"
    proof cases
      case 1
      then show ?thesis
        using recs [OF 1] p len
        by (cases "Suc i = parent") (simp_all add: st nth_append nth_list_update add_child_def)
    next
      case 2
      then show ?thesis
        using p len by (simp add: st nth_append nth_list_update record_of_def Record_init_def)
    qed
  qed
  show ?thesis
    unfolding builder_inv_def using 1 2 3 4 5 by blast
qed

lemma builder_inv_run: "add_terms builder_init ts = Inr b \<Longrightarrow> builder_inv ts b"
proof (induction ts arbitrary: b rule: rev_induct)
  case Nil
  then show ?case by (simp add: builder_inv_init)
next
  case (snoc t ts)
  then show ?case
    by (auto simp: add_terms_snoc split: sum.splits intro: builder_inv_step)
qed

text \<open>
  C4. After any stream \<open>ts\<close> that \<^verbatim>\<open>generate_records\<close> has taken, a term \<open>t\<close> whose
  lowercased parent term the table maps to a record: the new record, at the next
  address, is appended to the children of that record and nothing else changes in the
  store; the table gets the new record under the elided key and under the lowercased
  record term when \<open>t\<close> is eligible (no arg-child, parent not elided) and stays as it is
  otherwise, so both keys hold the new record exactly when \<open>t\<close> is eligible; and when the
  parent of \<open>t\<close> is elided, the record it is attached to is the one of the last eligible
  term of \<open>ts\<close>.
\<close>

theorem generate_records_attachment:
  assumes run: "add_terms builder_init ts = Inr b"
    and look: "last_term_map b (lower (parent_term t)) = Some parent"
  shows "\<exists>b'. add_term b t = Inr b' \<and>
           length (store b) = Suc (length ts) \<and> parent \<le> length ts \<and>
           store b' = (store b)[parent := add_child (store b ! parent) (Suc (length ts))] @ [record_of t] \<and>
           last_term_map b' =
             (if eligible t
              then (last_term_map b)(ELIDED_TERM \<mapsto> Suc (length ts), lower (record_term t) \<mapsto> Suc (length ts))
              else last_term_map b) \<and>
           ((last_term_map b' ELIDED_TERM = Some (Suc (length ts)) \<and>
             last_term_map b' (lower (record_term t)) = Some (Suc (length ts))) \<longleftrightarrow> eligible t) \<and>
           (parent_term t = ELIDED_TERM \<longrightarrow>
              (\<exists>j<length ts. parent = Suc j \<and> eligible (ts ! j) \<and>
                   (\<forall>i<length ts. j < i \<longrightarrow> \<not> eligible (ts ! i)) \<and>
                   rec_term (store b ! parent) = strip (record_term (ts ! j)) \<and>
                   rec_value (store b ! parent) = Some (tvalue (ts ! j))))"
proof -
  from builder_inv_run [OF run] have len: "length (store b) = Suc (length ts)"
    and bound: "\<And>k a. last_term_map b k = Some a \<Longrightarrow> a \<le> length ts"
    and el: "last_term_map b ELIDED_TERM = map_option Suc (last_eligible ts)"
    and recs: "\<And>i. i < length ts \<Longrightarrow> rec_term (store b ! Suc i) = strip (record_term (ts ! i)) \<and>
                     rec_value (store b ! Suc i) = Some (tvalue (ts ! i))"
    by (simp_all add: builder_inv_def)
  have p: "parent \<le> length ts" using bound look by simp
  define b' where "b' = \<lparr>store = (store b)[parent := add_child (store b ! parent) (Suc (length ts))] @ [record_of t],
       last_term_map = (if eligible t
              then (last_term_map b)(ELIDED_TERM \<mapsto> Suc (length ts), lower (record_term t) \<mapsto> Suc (length ts))
              else last_term_map b)\<rparr>"
  have step: "add_term b t = Inr b'"
    using look p len by (simp add: add_term_cases b'_def nth_append list_update_append)
  have iff: "(last_term_map b' ELIDED_TERM = Some (Suc (length ts)) \<and>
             last_term_map b' (lower (record_term t)) = Some (Suc (length ts))) \<longleftrightarrow> eligible t"
  proof (cases "eligible t")
    case True
    then show ?thesis by (simp add: b'_def)
  next
    case False
    have "last_term_map b ELIDED_TERM \<noteq> Some (Suc (length ts))"
      using bound [of ELIDED_TERM "Suc (length ts)"] by auto
    with False show ?thesis by (simp add: b'_def)
  qed
  have elided: "\<exists>j<length ts. parent = Suc j \<and> eligible (ts ! j) \<and>
                   (\<forall>i<length ts. j < i \<longrightarrow> \<not> eligible (ts ! i)) \<and>
                   rec_term (store b ! parent) = strip (record_term (ts ! j)) \<and>
                   rec_value (store b ! parent) = Some (tvalue (ts ! j))"
    if e: "parent_term t = ELIDED_TERM"
  proof -
    from look e el lower_ELIDED_TERM obtain j where j: "last_eligible ts = Some j" and pj: "parent = Suc j"
      by auto
    from last_eligible_props [OF j] recs [of j] pj show ?thesis
      by auto
  qed
  show ?thesis
    using step len p iff elided by (intro exI [of _ b']) (simp add: b'_def)
qed

text \<open>The witness: after the terms \<^verbatim>\<open>a\<close> and \<^verbatim>\<open>a.b\<close>, the term \<^verbatim>\<open>.c\<close> is attached to the record
  of \<^verbatim>\<open>a.b\<close> (address 2), not to the record of \<^verbatim>\<open>a\<close> (address 1), the parent of its
  predecessor.\<close>

theorem generate_records_attachment_witness:
  "\<exists>b b'. add_terms builder_init [mk_term NO_TERM ''a'' ''1'' [] False, mk_term ''a'' ''b'' ''2'' [] False] = Inr b \<and>
      last_term_map b (lower (parent_term (mk_term ELIDED_TERM ''c'' ''3'' [] False))) = Some 2 \<and>
      add_term b (mk_term ELIDED_TERM ''c'' ''3'' [] False) = Inr b' \<and>
      map rec_children (store b') = [[1], [2], [3], []] \<and>
      map rec_term (store b') = [''Root'', ''a'', ''b'', ''c'']"
proof -
  let ?ts = "[mk_term NO_TERM ''a'' ''1'' [] False, mk_term ''a'' ''b'' ''2'' [] False]"
  let ?t = "mk_term ELIDED_TERM ''c'' ''3'' [] False"
  define b where "b =
    \<lparr>store = [\<lparr>rec_term = ''Root'', rec_value = None, rec_term_value_name = ''@value'', rec_children = [1]\<rparr>,
              \<lparr>rec_term = ''a'', rec_value = Some ''1'', rec_term_value_name = ''@value'', rec_children = [2]\<rparr>,
              \<lparr>rec_term = ''b'', rec_value = Some ''2'', rec_term_value_name = ''@value'', rec_children = []\<rparr>],
     last_term_map = [NO_TERM \<mapsto> 0, ELIDED_TERM \<mapsto> 1, ''a'' \<mapsto> 1, ELIDED_TERM \<mapsto> 2, ''b'' \<mapsto> 2]\<rparr>"
  have run: "add_terms builder_init ?ts = Inr b"
    unfolding b_def
    by (simp add: builder_init_def add_term_def mk_term_def Record_init_def add_child_def
        NO_TERM_def ELIDED_TERM_def lower_def lower_char_def strip_def is_space_def
        numeral_2_eq_2)
  have look: "last_term_map b (lower (parent_term ?t)) = Some 2"
    unfolding b_def
    by (simp add: mk_term_def NO_TERM_def ELIDED_TERM_def lower_def lower_char_def)
  from generate_records_attachment [OF run look] obtain b' where step: "add_term b ?t = Inr b'"
    and st': "store b' = (store b)[2 := add_child (store b ! 2) (Suc (length ?ts))] @ [record_of ?t]"
    by blast
  have c1: "map rec_children (store b') = [[1], [2], [3], []]"
    unfolding st' b_def
    by (simp add: add_child_def record_of_def Record_init_def)
  have c2: "map rec_term (store b') = [''Root'', ''a'', ''b'', ''c'']"
    unfolding st' b_def
    by (simp add: add_child_def record_of_def Record_init_def mk_term_def strip_def is_space_def)
  show ?thesis
  proof (intro exI conjI)
    show "add_terms builder_init ?ts = Inr b" by (fact run)
    show "last_term_map b (lower (parent_term ?t)) = Some 2" by (fact look)
    show "add_term b ?t = Inr b'" by (fact step)
    show "map rec_children (store b') = [[1], [2], [3], []]" by (fact c1)
    show "map rec_term (store b') = [''Root'', ''a'', ''b'', ''c'']" by (fact c2)
  qed
qed

lemma add_terms_ok_iff:
  "(\<exists>b. add_terms builder_init ts = Inr b) \<longleftrightarrow>
     (\<forall>i<length ts. lower (parent_term (ts ! i)) \<in> set (registered (take i ts)))"
proof (induction ts rule: rev_induct)
  case Nil
  show ?case by simp
next
  case (snoc t ts)
  have take_eq: "\<And>i. i < length ts \<Longrightarrow> take i (ts @ [t]) = take i ts \<and> (ts @ [t]) ! i = ts ! i"
    by (simp add: nth_append)
  have split_all: "(\<forall>i<length (ts @ [t]). lower (parent_term ((ts @ [t]) ! i)) \<in> set (registered (take i (ts @ [t]))))
      \<longleftrightarrow> (\<forall>i<length ts. lower (parent_term (ts ! i)) \<in> set (registered (take i ts)))
           \<and> lower (parent_term t) \<in> set (registered ts)"
    using take_eq by (auto simp: less_Suc_eq)
  show ?case
  proof (cases "add_terms builder_init ts")
    case (Inl e)
    then have "\<not> (\<exists>b. add_terms builder_init (ts @ [t]) = Inr b)"
      by (simp add: add_terms_snoc)
    moreover from snoc Inl
    have "\<not> (\<forall>i<length ts. lower (parent_term (ts ! i)) \<in> set (registered (take i ts)))"
      by simp
    ultimately show ?thesis
      unfolding split_all by blast
  next
    case (Inr b)
    from builder_inv_run [OF Inr] have dm: "dom (last_term_map b) = set (registered ts)"
      by (simp add: builder_inv_def)
    have "(\<exists>b'. add_term b t = Inr b') \<longleftrightarrow> lower (parent_term t) \<in> dom (last_term_map b)"
      by (auto simp: add_term_cases split: option.splits)
    then have "(\<exists>b'. add_terms builder_init (ts @ [t]) = Inr b') \<longleftrightarrow>
        lower (parent_term t) \<in> set (registered ts)"
      using Inr dm by (simp add: add_terms_snoc)
    moreover from snoc Inr
    have "\<forall>i<length ts. lower (parent_term (ts ! i)) \<in> set (registered (take i ts))"
      by simp
    ultimately show ?thesis
      unfolding split_all by blast
  qed
qed

text \<open>
  C10. \<^verbatim>\<open>generate_records\<close> raises KeyError, and returns no tree, exactly when the
  lowercased parent term of some term of the stream is not among the keys registered
  by the terms before it: the seed \<^verbatim>\<open>NO_TERM\<close> and, for each eligible term, the elided key
  and its lowercased record term. In particular it does when the first term has an
  elided parent.
\<close>

theorem generate_records_KeyError:
  "(generate_records ts = Inl KeyError \<longleftrightarrow>
      (\<exists>i<length ts. lower (parent_term (ts ! i)) \<notin> set (registered (take i ts)))) \<and>
   (parent_term t = ELIDED_TERM \<longrightarrow> generate_records (t # ts) = Inl KeyError)"
proof -
  have gr: "generate_records ts = Inl KeyError \<longleftrightarrow> \<not> (\<exists>b. add_terms builder_init ts = Inr b)" for ts
    by (cases "add_terms builder_init ts") (auto simp: generate_records_def dest: add_terms_error)
  have a: "generate_records ts = Inl KeyError \<longleftrightarrow>
      (\<exists>i<length ts. lower (parent_term (ts ! i)) \<notin> set (registered (take i ts)))"
    by (auto simp: gr add_terms_ok_iff)
  have "lower ELIDED_TERM \<notin> set (registered [])"
    by (simp add: registered_def ELIDED_TERM_def NO_TERM_def lower_def lower_char_def)
  then have "parent_term t = ELIDED_TERM \<Longrightarrow> generate_records (t # ts) = Inl KeyError"
    unfolding gr add_terms_ok_iff by (auto intro: exI [of _ 0])
  with a show ?thesis by blast
qed

text \<open>The witness: a stream that starts with \<^verbatim>\<open>.c\<close>, and a stream whose second term
  names the parent \<^verbatim>\<open>x\<close>, which no term before it has registered.\<close>

theorem generate_records_KeyError_witness:
  "parent_term (mk_term ELIDED_TERM ''c'' ''3'' [] False) = ELIDED_TERM \<and>
   generate_records [mk_term ELIDED_TERM ''c'' ''3'' [] False, mk_term NO_TERM ''a'' ''1'' [] False]
     = Inl KeyError \<and>
   generate_records [mk_term NO_TERM ''a'' ''1'' [] False, mk_term ''x'' ''b'' ''2'' [] False]
     = Inl KeyError"
proof -
  let ?c = "mk_term ELIDED_TERM ''c'' ''3'' [] False"
  let ?ts = "[mk_term NO_TERM ''a'' ''1'' [] False, mk_term ''x'' ''b'' ''2'' [] False]"
  have h: "parent_term ?c = ELIDED_TERM"
    by (simp add: mk_term_def)
  have 1: "generate_records [?c, mk_term NO_TERM ''a'' ''1'' [] False] = Inl KeyError"
    using generate_records_KeyError [of "[mk_term NO_TERM ''a'' ''1'' [] False]" ?c] h
    by blast
  have "lower (parent_term (?ts ! 1)) \<notin> set (registered (take 1 ?ts))"
    by (simp add: registered_def mk_term_def eligible_def NO_TERM_def ELIDED_TERM_def
        lower_def lower_char_def)
  then have "\<exists>i<length ?ts. lower (parent_term (?ts ! i)) \<notin> set (registered (take i ?ts))"
    by (intro exI [of _ 1]) simp
  then have 2: "generate_records ?ts = Inl KeyError"
    using generate_records_KeyError [of ?ts] by blast
  from h 1 2 show ?thesis
    by blast
qed

section \<open>The pipeline on the example of the specification\<close>

text \<open>
  C1, as amended. The rows
  \<^verbatim>\<open>[["table","t1"],["section","","a","b"],["table","v1","x1","x2"]]\<close> go through the
  parser, \<^verbatim>\<open>generate_records\<close> and \<^verbatim>\<open>convert_to_dict\<close> of the root to
  \<^verbatim>\<open>{"table": ["t1", {"a": "x1", "b": "x2", "@value": "v1"}]}\<close>: the first row is a
  \<^verbatim>\<open>table\<close> record of its own, so the key holds the list of both.
\<close>

theorem example_rows_to_dict:
  "rows_to_dict w n example_rows =
     Some (Inr (PyDict [(''table'',
       PyList [PyStr ''t1'',
               PyDict [(''a'', PyStr ''x1''), (''b'', PyStr ''x2''), (''@value'', PyStr ''v1'')]])]))"
  by (simp add: example_rows_def rows_to_dict_def handle_row_def dispatch_term_def Term_init_def
      strip_def lower_def lower_char_def is_space_def substitute_synonym_def TermParser_init_def
      child_terms_def emit_before_def generate_records_def builder_init_def add_term_def
      Record_init_def add_child_def NO_TERM_def ELIDED_TERM_def merge_child_def scalar_def Let_def)

text \<open>C1, as claimed: the result is not the dict of the second \<^verbatim>\<open>table\<close> row alone.\<close>

theorem example_rows_not_single_dict:
  "rows_to_dict no_resources 0 example_rows \<noteq>
     Some (Inr (PyDict [(''table'',
       PyDict [(''a'', PyStr ''x1''), (''b'', PyStr ''x2''), (''@value'', PyStr ''v1'')])]))"
  by (simp add: example_rows_def rows_to_dict_def handle_row_def dispatch_term_def Term_init_def
      strip_def lower_def lower_char_def is_space_def substitute_synonym_def TermParser_init_def
      child_terms_def emit_before_def generate_records_def builder_init_def add_term_def
      Record_init_def add_child_def NO_TERM_def ELIDED_TERM_def merge_child_def scalar_def Let_def)

subsection \<open>The store is a tree\<close>

lemma those_all_Some:
  "\<forall>x \<in> set xs. f x \<noteq> None \<Longrightarrow> those (map f xs) = Some (map (\<lambda>x. the (f x)) xs)"
  by (induction xs) auto

lemma tree_of_total:
  assumes "store_wf st"
  shows "a < length st \<Longrightarrow> length st - a \<le> n \<Longrightarrow> tree_of n st a \<noteq> None"
proof (induction n arbitrary: a)
  case 0
  then show ?case by simp
next
  case (Suc n)
  have "\<forall>c \<in> set (rec_children (st ! a)). tree_of n st c \<noteq> None"
  proof
    fix c assume c: "c \<in> set (rec_children (st ! a))"
    from assms Suc.prems(1) c have "a < c \<and> c < length st"
      unfolding store_wf_def by blast
    with Suc.prems(2) have "c < length st" and "length st - c \<le> n"
      by arith+
    then show "tree_of n st c \<noteq> None"
      by (rule Suc.IH)
  qed
  then have "those (map (tree_of n st) (rec_children (st ! a))) \<noteq> None"
    by (simp add: those_all_Some)
  with Suc.prems(1) show ?case
    by simp
qed

lemma store_wf_step:
  assumes wf: "store_wf st" and p: "parent < length st"
  shows "store_wf ((st @ [record_of t])[parent := add_child ((st @ [record_of t]) ! parent) (length st)])"
  unfolding store_wf_def
proof (intro allI impI ballI)
  let ?st' = "(st @ [record_of t])[parent := add_child ((st @ [record_of t]) ! parent) (length st)]"
  fix a c
  assume a: "a < length ?st'" and c: "c \<in> set (rec_children (?st' ! a))"
  from a have a': "a < length st \<or> a = length st"
    by (simp add: less_Suc_eq)
  from wf have old: "\<And>x y. x < length st \<Longrightarrow> y \<in> set (rec_children (st ! x)) \<Longrightarrow> x < y \<and> y < length st"
    unfolding store_wf_def by blast
  have len: "length ?st' = Suc (length st)"
    by simp
  show "a < c \<and> c < length ?st'"
  proof (cases "a = parent")
    case True
    have "?st' ! parent = add_child (st ! parent) (length st)"
      using p by (simp add: nth_append)
    with c True have "c \<in> set (rec_children (st ! parent)) \<or> c = length st"
      by (auto simp: add_child_def)
    then show ?thesis
    proof
      assume "c \<in> set (rec_children (st ! parent))"
      from old [OF p this] True show ?thesis
        unfolding len by simp
    next
      assume "c = length st"
      with p True show ?thesis
        unfolding len by simp
    qed
  next
    case False
    show ?thesis
    proof (cases "a < length st")
      case a_lt: True
      with False have "?st' ! a = st ! a"
        by (simp add: nth_append)
      with c have "c \<in> set (rec_children (st ! a))"
        by simp
      from old [OF a_lt this] show ?thesis
        unfolding len by simp
    next
      case a_ge: False
      with a' have "a = length st"
        by simp
      with False have "?st' ! a = record_of t"
        by simp
      with c have False
        by (simp add: record_of_def Record_init_def)
      then show ?thesis ..
    qed
  qed
qed

lemma store_wf_run: "add_terms builder_init ts = Inr b \<Longrightarrow> store_wf (store b)"
proof (induction ts arbitrary: b rule: rev_induct)
  case Nil
  then have "store b = [Record_init ''Root'' None None]"
    by (auto simp: builder_init_def)
  then show ?case
    by (simp add: store_wf_def Record_init_def)
next
  case (snoc t ts)
  from snoc.prems obtain b0 where run: "add_terms builder_init ts = Inr b0"
    and step: "add_term b0 t = Inr b"
    by (cases "add_terms builder_init ts") (simp_all add: add_terms_snoc)
  from step obtain parent where look: "last_term_map b0 (lower (parent_term t)) = Some parent"
    and st: "store b = (store b0 @ [record_of t])[parent := add_child ((store b0 @ [record_of t]) ! parent) (length (store b0))]"
    by (cases "last_term_map b0 (lower (parent_term t))") (auto simp: add_term_cases)
  from builder_inv_run [OF run] have "length (store b0) = Suc (length ts)"
    and "\<forall>k a. last_term_map b0 k = Some a \<longrightarrow> a \<le> length ts"
    by (simp_all add: builder_inv_def)
  with look have "parent < length (store b0)"
    by (simp add: less_Suc_eq_le)
  with snoc.IH [OF run] show ?case
    unfolding st by (rule store_wf_step)
qed

text \<open>The records that \<^verbatim>\<open>generate_records\<close> returns form a finite tree below the root:
  reading the tree out of the store, to the depth of its size, succeeds.\<close>

lemma generate_records_tree:
  assumes "generate_records ts = Inr st"
  shows "tree_of (length st) st 0 \<noteq> None"
proof -
  from assms obtain b where run: "add_terms builder_init ts = Inr b" and st: "st = store b"
    by (cases "add_terms builder_init ts") (auto simp: generate_records_def)
  from builder_inv_run [OF run] have "0 < length st"
    by (simp add: builder_inv_def st)
  moreover from store_wf_run [OF run] have "store_wf st"
    by (simp add: st)
  ultimately show ?thesis
    by (intro tree_of_total) simp_all
qed

text \<open>So the pipeline gives a result, a dict or an exception, whenever the iteration of
  the parser ends within the nesting bound.\<close>

lemma rows_to_dict_returns:
  assumes "iter_terms w n (TermParser_init None) rows = Some out"
  shows "rows_to_dict w n rows \<noteq> None"
proof (cases "generate_records (emitted out)")
  case (Inl e)
  with assms show ?thesis
    by (simp add: rows_to_dict_def)
next
  case (Inr st)
  from generate_records_tree [OF Inr] obtain h where "tree_of (length st) st 0 = Some h"
    by auto
  with assms Inr show ?thesis
    by (simp add: rows_to_dict_def split: option.splits)
qed

end
